theory Spec2Isabelle
  imports Main "HOL-Library.Multiset"
begin

section \<open>The Memory Scramble board of \<^verbatim>\<open>src/src/board.ts\<close>\<close>

text \<open>
  The class \<^verbatim>\<open>Board\<close> owns a grid of card objects. Every method is embedded as a
  function that takes the board and returns the board it leaves behind, so that each
  assignment of the source is a visible update of the state. Row and column numbers
  are JavaScript numbers; the embedding covers the integer-valued ones as \<open>int\<close>
  (a board that passes \<^verbatim>\<open>checkRep\<close> has integer dimensions, since its \<^verbatim>\<open>rows\<close>
  equals an array length).
\<close>

subsection \<open>Data model\<close>

datatype CardState = FaceDown | Revealed | Matched

text \<open>
  \<^verbatim>\<open>interface Card\<close>. The optional field \<^verbatim>\<open>controlledBy\<close> is \<open>None\<close> when it is absent
  or \<^verbatim>\<open>undefined\<close>.
\<close>

record Card =
  value_c :: string
  state :: CardState
  controlledBy :: "string option"

text \<open>\<^verbatim>\<open>interface PublicCard\<close>: \<open>value_p = None\<close> is the source's \<^verbatim>\<open>null\<close>.\<close>

record PublicCard =
  value_p :: "string option"
  state_p :: CardState
  controlledBy_p :: "string option"

text \<open>
  The fields of \<^verbatim>\<open>class Board\<close>. The constructor pushes a fresh object literal for
  every cell into a fresh array per row, so no two cells share a card object and a
  list of lists of cards is a faithful picture of the grid.
\<close>

record Board =
  rows :: int
  cols :: int
  board :: "Card list list"

text \<open>The object returned by \<^verbatim>\<open>flip\<close>.\<close>

record FlipResult =
  success :: bool
  message :: string
  boardView :: "PublicCard list list"

text \<open>The entries \<^verbatim>\<open>{ r, c, value }\<close> that \<^verbatim>\<open>flip\<close> collects in \<^verbatim>\<open>revealed\<close>.\<close>

record RevealedEntry =
  r_rc :: int
  c_rc :: int
  value_rc :: string

text \<open>\<^verbatim>\<open>throw new Error(msg)\<close> is the value \<open>Inl (Error msg)\<close>.\<close>

datatype error = Error string

subsection \<open>Array access\<close>

text \<open>
  \<^verbatim>\<open>xs[i]\<close> on a JavaScript array: the element when \<open>i\<close> is an index of the array,
  \<^verbatim>\<open>undefined\<close> (here \<open>None\<close>) otherwise, also for a negative \<open>i\<close>. Rows are arrays
  and cards are objects, hence truthy, so the source's tests \<^verbatim>\<open>!rowArr\<close> and \<^verbatim>\<open>!card\<close>
  hold exactly when the access gave \<^verbatim>\<open>undefined\<close>.
\<close>

definition index :: "'a list \<Rightarrow> int \<Rightarrow> 'a option" where
  "index xs i = (if 0 \<le> i \<and> i < int (length xs) then Some (xs ! nat i) else None)"

text \<open>\<^verbatim>\<open>this.board[r]\<close> followed by \<^verbatim>\<open>[c]\<close>, with both guards.\<close>

definition cellAt :: "Board \<Rightarrow> int \<Rightarrow> int \<Rightarrow> Card option" where
  "cellAt b r c =
     (case index (board b) r of
        None \<Rightarrow> None
      | Some rowArr \<Rightarrow> index rowArr c)"

text \<open>The assignments \<^verbatim>\<open>card.state = 'revealed'; card.controlledBy = player\<close> of \<^verbatim>\<open>flip\<close>.\<close>

definition revealCard :: "string \<Rightarrow> Card \<Rightarrow> Card" where
  "revealCard player crd = crd\<lparr>state := Revealed, controlledBy := Some player\<rparr>"

text \<open>
  The assignments in the two loops that end a pair: \<^verbatim>\<open>state = 'matched'\<close> or
  \<^verbatim>\<open>state = 'face-down'\<close>, and \<^verbatim>\<open>controlledBy = undefined\<close> in both.
\<close>

definition clearCard :: "CardState \<Rightarrow> Card \<Rightarrow> Card" where
  "clearCard s crd = crd\<lparr>state := s, controlledBy := None\<rparr>"

text \<open>
  Assigning to fields of the card object found at \<^verbatim>\<open>this.board[r][c]\<close>: the object is
  replaced by \<open>f\<close> of it. Where one of the two guarded accesses gives \<^verbatim>\<open>undefined\<close>
  the source assigns nothing (it returns or continues), and the board is unchanged.
\<close>

definition modifyCard :: "Board \<Rightarrow> int \<Rightarrow> int \<Rightarrow> (Card \<Rightarrow> Card) \<Rightarrow> Board" where
  "modifyCard b r c f =
     (case index (board b) r of
        None \<Rightarrow> b
      | Some rowArr \<Rightarrow>
          (case index rowArr c of
             None \<Rightarrow> b
           | Some crd \<Rightarrow> b\<lparr>board := (board b)[nat r := rowArr[nat c := f crd]]\<rparr>))"

subsection \<open>checkRep\<close>

text \<open>The \<^verbatim>\<open>for (const row of this.board)\<close> loop of \<^verbatim>\<open>checkRep\<close>.\<close>

fun checkRep_rows :: "int \<Rightarrow> Card list list \<Rightarrow> error + unit" where
  "checkRep_rows n [] = Inr ()"
| "checkRep_rows n (row # rest) =
     (if int (length row) \<noteq> n then Inl (Error ''Invalid column count'')
      else checkRep_rows n rest)"

definition checkRep :: "Board \<Rightarrow> error + unit" where
  "checkRep b =
     (if int (length (board b)) \<noteq> rows b then Inl (Error ''Invalid row count'')
      else checkRep_rows (cols b) (board b))"

subsection \<open>Construction\<close>

text \<open>\<^verbatim>\<open>shuffled[idx] || ''\<close>: an absent entry and the empty string both give \<open>''''\<close>.\<close>

definition valueOr :: "string list \<Rightarrow> int \<Rightarrow> string" where
  "valueOr shuffled idx =
     (case index shuffled idx of
        None \<Rightarrow> ''''
      | Some v \<Rightarrow> (if v = '''' then '''' else v))"

text \<open>
  The inner loop \<^verbatim>\<open>for (let c = 0; c < cols; c++)\<close> of the constructor, from counter
  \<open>c\<close> on: it pushes one face-down card per step and advances \<open>idx\<close>; it returns the
  row and the new \<open>idx\<close>.
\<close>

function fillRow :: "int \<Rightarrow> string list \<Rightarrow> int \<Rightarrow> int \<Rightarrow> Card list \<Rightarrow> Card list \<times> int" where
  "fillRow cols' shuffled c idx row =
     (if c < cols' then
        fillRow cols' shuffled (c + 1) (idx + 1)
          (row @ [\<lparr>value_c = valueOr shuffled idx, state = FaceDown, controlledBy = None\<rparr>])
      else (row, idx))"
  by pat_completeness auto
termination
  by (relation "measure (\<lambda>(cols', shuffled, c, idx, row). nat (cols' - c))") auto

text \<open>The outer loop \<^verbatim>\<open>for (let r = 0; r < rows; r++)\<close>, from counter \<open>r\<close> on.\<close>

function fillBoard :: "int \<Rightarrow> int \<Rightarrow> string list \<Rightarrow> int \<Rightarrow> int \<Rightarrow> Card list list \<Rightarrow> Card list list" where
  "fillBoard rows' cols' shuffled r idx grid =
     (if r < rows' then
        (case fillRow cols' shuffled 0 idx [] of
           (row, idx') \<Rightarrow> fillBoard rows' cols' shuffled (r + 1) idx' (grid @ [row]))
      else grid)"
  by pat_completeness auto
termination
  by (relation "measure (\<lambda>(rows', cols', shuffled, r, idx, grid). nat (rows' - r))") auto

text \<open>The two loop equations unfold forever as rewrite rules; they are applied by hand.\<close>

declare fillRow.simps [simp del] fillBoard.simps [simp del]

text \<open>
  The constructor after the shuffle: it stores the dimensions, fills the grid from the
  shuffled values and runs \<^verbatim>\<open>checkRep\<close>, whose exception is the constructor's.
\<close>

definition constructFrom :: "int \<Rightarrow> int \<Rightarrow> string list \<Rightarrow> error + Board" where
  "constructFrom rows' cols' shuffled =
     (let b = \<lparr>rows = rows', cols = cols', board = fillBoard rows' cols' shuffled 0 0 []\<rparr>
      in case checkRep b of
           Inl e \<Rightarrow> Inl e
         | Inr u \<Rightarrow> Inr b)"

text \<open>
  \<^verbatim>\<open>shuffled.sort(() => Math.random() - 0.5)\<close> sorts a copy of \<^verbatim>\<open>cards\<close> with a random
  comparison: the outcome is some rearrangement of the supplied values, and which one
  is not determined. The constructor is therefore a relation between its arguments
  and its possible results.
\<close>

inductive "constructor" :: "int \<Rightarrow> int \<Rightarrow> string list \<Rightarrow> error + Board \<Rightarrow> bool" where
  shuffle: "mset shuffled = mset cards \<Longrightarrow>
     constructor rows' cols' cards (constructFrom rows' cols' shuffled)"

subsection \<open>look and map\<close>

text \<open>The arrow function that \<^verbatim>\<open>look\<close> maps over every card.\<close>

definition lookCard :: "string \<Rightarrow> Card \<Rightarrow> PublicCard" where
  "lookCard player crd =
     (if state crd = Matched then
        \<lparr>value_p = Some (value_c crd), state_p = Matched, controlledBy_p = None\<rparr>
      else if state crd = Revealed \<and> controlledBy crd = Some player then
        \<lparr>value_p = Some (value_c crd), state_p = Revealed, controlledBy_p = Some player\<rparr>
      else \<lparr>value_p = None, state_p = FaceDown, controlledBy_p = None\<rparr>)"

text \<open>
  \<^verbatim>\<open>look(player)\<close>: the view, and the board after the call. \<^verbatim>\<open>Array.prototype.map\<close>
  builds new arrays and the arrow function builds new objects; the method has no
  assignment to the board.
\<close>

definition look :: "string \<Rightarrow> Board \<Rightarrow> PublicCard list list \<times> Board" where
  "look player b = (map (map (lookCard player)) (board b), b)"

text \<open>The arrow function that \<^verbatim>\<open>map()\<close> maps over every card.\<close>

definition mapCard :: "Card \<Rightarrow> PublicCard" where
  "mapCard crd =
     (if state crd = Matched \<or> state crd = Revealed then
        \<lparr>value_p = Some (value_c crd), state_p = state crd, controlledBy_p = None\<rparr>
      else \<lparr>value_p = None, state_p = FaceDown, controlledBy_p = None\<rparr>)"

text \<open>\<^verbatim>\<open>Board.map()\<close>, named \<open>map_board\<close> beside the list function \<open>map\<close>.\<close>

definition map_board :: "Board \<Rightarrow> PublicCard list list \<times> Board" where
  "map_board b = (map (map mapCard) (board b), b)"

text \<open>\<^verbatim>\<open>view[r][c]\<close> on a returned view, with the same guards as \<open>cellAt\<close>.\<close>

definition viewAt :: "PublicCard list list \<Rightarrow> int \<Rightarrow> int \<Rightarrow> PublicCard option" where
  "viewAt v r c =
     (case index v r of
        None \<Rightarrow> None
      | Some rowArr \<Rightarrow> index rowArr c)"

subsection \<open>flip\<close>

text \<open>
  The inner scan loop \<^verbatim>\<open>for (let cc = 0; cc < this.cols; cc++)\<close> over the remaining
  column numbers \<open>ccs\<close>, pushing onto \<open>revealed\<close>.
\<close>

fun scanCols :: "string \<Rightarrow> int \<Rightarrow> Card list \<Rightarrow> int list \<Rightarrow> RevealedEntry list \<Rightarrow> RevealedEntry list" where
  "scanCols player rr checkRow [] revealed = revealed"
| "scanCols player rr checkRow (cc # ccs) revealed =
     scanCols player rr checkRow ccs
       (case index checkRow cc of
          None \<Rightarrow> revealed
        | Some check \<Rightarrow>
            (if state check = Revealed \<and> controlledBy check = Some player
             then revealed @ [\<lparr>r_rc = rr, c_rc = cc, value_rc = value_c check\<rparr>]
             else revealed))"

text \<open>
  The outer scan loop \<^verbatim>\<open>for (let rr = 0; rr < this.rows; rr++)\<close> over the remaining
  row numbers \<open>rrs\<close>; a missing row is skipped (\<^verbatim>\<open>continue\<close>).
\<close>

fun scanRows :: "string \<Rightarrow> Board \<Rightarrow> int list \<Rightarrow> RevealedEntry list \<Rightarrow> RevealedEntry list" where
  "scanRows player b [] revealed = revealed"
| "scanRows player b (rr # rrs) revealed =
     scanRows player b rrs
       (case index (board b) rr of
          None \<Rightarrow> revealed
        | Some checkRow \<Rightarrow> scanCols player rr checkRow [0..cols b - 1] revealed)"

text \<open>
  The whole scan: the counters run over \<open>0, \<dots>, rows - 1\<close> and \<open>0, \<dots>, cols - 1\<close>
  (the fields, not the array lengths).
\<close>

definition findRevealed :: "Board \<Rightarrow> string \<Rightarrow> RevealedEntry list" where
  "findRevealed b player = scanRows player b [0..rows b - 1] []"

text \<open>
  The two loops \<^verbatim>\<open>for (const rc of revealed)\<close>, which differ in the state they
  assign only: \<open>Matched\<close> in the match branch, \<open>FaceDown\<close> in the other.
\<close>

fun settle :: "CardState \<Rightarrow> RevealedEntry list \<Rightarrow> Board \<Rightarrow> Board" where
  "settle s [] b = b"
| "settle s (rc # rcs) b =
     settle s rcs (modifyCard b (r_rc rc) (c_rc rc) (clearCard s))"

text \<open>\<^verbatim>\<open>return { success, message, boardView: this.look(player) }\<close>.\<close>

definition reply :: "bool \<Rightarrow> string \<Rightarrow> string \<Rightarrow> Board \<Rightarrow> (error + FlipResult) \<times> Board" where
  "reply ok msg player b =
     (case look player b of
        (view, b') \<Rightarrow> (Inr \<lparr>success = ok, message = msg, boardView = view\<rparr>, b'))"

text \<open>\<^verbatim>\<open>this.checkRep(); return ...\<close>: an exception of \<^verbatim>\<open>checkRep\<close> leaves \<^verbatim>\<open>flip\<close> with
  the board as mutated so far.\<close>

definition checkedReply :: "string \<Rightarrow> string \<Rightarrow> Board \<Rightarrow> (error + FlipResult) \<times> Board" where
  "checkedReply msg player b =
     (case checkRep b of
        Inl e \<Rightarrow> (Inl e, b)
      | Inr u \<Rightarrow> reply True msg player b)"

definition flip :: "int \<Rightarrow> int \<Rightarrow> string \<Rightarrow> Board \<Rightarrow> (error + FlipResult) \<times> Board" where
  "flip row col player b =
     (let r = row - 1; c = col - 1 in
      case index (board b) r of
        None \<Rightarrow> reply False ''Row out of bounds'' player b
      | Some rowArr \<Rightarrow>
          (case index rowArr c of
             None \<Rightarrow> reply False ''Column out of bounds'' player b
           | Some crd \<Rightarrow>
               if state crd \<noteq> FaceDown then reply False ''Cannot flip'' player b
               else
                 let b1 = modifyCard b r c (revealCard player);
                     revealed = findRevealed b1 player
                 in if length revealed = 2 then
                      (if value_rc (revealed ! 0) = value_rc (revealed ! 1) then
                         checkedReply ''Match!'' player (settle Matched revealed b1)
                       else
                         checkedReply ''Not a match.'' player (settle FaceDown revealed b1))
                    else checkedReply ''Card flipped'' player b1))"

subsection \<open>Reachable boards\<close>

text \<open>
  The boards a game can be in: what the constructor returns, and what any call of
  \<^verbatim>\<open>flip\<close> leaves behind.
\<close>

inductive reachable :: "Board \<Rightarrow> bool" where
  constructed: "constructor rows' cols' cards (Inr b) \<Longrightarrow> reachable b"
| flipped: "reachable b \<Longrightarrow> reachable (snd (flip row col player b))"

subsection \<open>Notions used in the statements\<close>

text \<open>The cell an entry of \<^verbatim>\<open>revealed\<close> points at.\<close>

definition posOf :: "RevealedEntry \<Rightarrow> int \<times> int" where
  "posOf rc = (r_rc rc, c_rc rc)"

text \<open>A card that is face-up for \<open>player\<close>: a member of the player's active reveal set.\<close>

definition heldBy :: "string \<Rightarrow> Card \<Rightarrow> bool" where
  "heldBy player crd \<longleftrightarrow> state crd = Revealed \<and> controlledBy crd = Some player"

text \<open>The controller invariant on one card, and on every card of a board.\<close>

definition controllerOk :: "Card \<Rightarrow> bool" where
  "controllerOk crd \<longleftrightarrow> (controlledBy crd \<noteq> None) = (state crd = Revealed)"

definition controllerInv :: "Board \<Rightarrow> bool" where
  "controllerInv b \<longleftrightarrow> list_all (list_all controllerOk) (board b)"

subsection \<open>Example boards\<close>

text \<open>
  The boards of the two scenarios: one row holding \<open>A\<close>, \<open>B\<close> and one holding \<open>A\<close>, \<open>A\<close>,
  all face-down, and the same boards after player \<open>p1\<close> has turned the first card.
\<close>

definition faceDown :: "string \<Rightarrow> Card" where
  "faceDown v = \<lparr>value_c = v, state = FaceDown, controlledBy = None\<rparr>"

definition faceUp :: "string \<Rightarrow> string \<Rightarrow> Card" where
  "faceUp v player = \<lparr>value_c = v, state = Revealed, controlledBy = Some player\<rparr>"

definition hidden :: PublicCard where
  "hidden = \<lparr>value_p = None, state_p = FaceDown, controlledBy_p = None\<rparr>"

definition boardAB :: Board where
  "boardAB = \<lparr>rows = 1, cols = 2, board = [[faceDown ''A'', faceDown ''B'']]\<rparr>"

definition boardAB1 :: Board where
  "boardAB1 = \<lparr>rows = 1, cols = 2, board = [[faceUp ''A'' ''p1'', faceDown ''B'']]\<rparr>"

definition boardAA1 :: Board where
  "boardAA1 = \<lparr>rows = 1, cols = 2, board = [[faceUp ''A'' ''p1'', faceDown ''A'']]\<rparr>"

section \<open>Auxiliary facts\<close>

subsection \<open>Array access and single-card updates\<close>

lemma index_Some_iff: "index xs i = Some x \<longleftrightarrow> 0 \<le> i \<and> i < int (length xs) \<and> xs ! nat i = x"
  by (auto simp: index_def)

lemma index_None_iff: "index xs i = None \<longleftrightarrow> i < 0 \<or> int (length xs) \<le> i"
  by (auto simp: index_def)

lemma index_map: "index (map f xs) i = map_option f (index xs i)"
  by (auto simp: index_def)

lemma index_update:
  "0 \<le> i \<Longrightarrow> index (xs[nat i := x]) j = (if j = i \<and> i < int (length xs) then Some x else index xs j)"
  by (cases "j = i") (auto simp: index_def nth_list_update nat_eq_iff)

lemma rows_modifyCard: "rows (modifyCard b r c f) = rows b"
  by (simp add: modifyCard_def split: option.splits)

lemma cols_modifyCard: "cols (modifyCard b r c f) = cols b"
  by (simp add: modifyCard_def split: option.splits)

lemma cellAt_modifyCard:
  "cellAt (modifyCard b r c f) r' c' =
     (if r' = r \<and> c' = c then map_option f (cellAt b r c) else cellAt b r' c')"
proof (cases "index (board b) r")
  case None
  then show ?thesis by (simp add: modifyCard_def cellAt_def)
next
  case (Some rowArr)
  note row = this
  show ?thesis
  proof (cases "index rowArr c")
    case None
    with row show ?thesis by (simp add: modifyCard_def cellAt_def)
  next
    case (Some crd)
    from row have r0: "0 \<le> r" "r < int (length (board b))" by (simp_all add: index_Some_iff)
    from Some have c0: "0 \<le> c" "c < int (length rowArr)" by (simp_all add: index_Some_iff)
    show ?thesis using row Some r0 c0
      by (simp add: modifyCard_def cellAt_def index_update)
  qed
qed

lemma shape_modifyCard: "map length (board (modifyCard b r c f)) = map length (board b)"
  by (auto simp: modifyCard_def index_Some_iff map_update list_update_same_conv split: option.splits)

subsection \<open>The shape check\<close>

lemma checkRep_rows_iff: "checkRep_rows n g = Inr () \<longleftrightarrow> (\<forall>row\<in>set g. int (length row) = n)"
  by (induction g) simp_all

lemma checkRep_iff:
  "checkRep b = Inr () \<longleftrightarrow>
     int (length (board b)) = rows b \<and> (\<forall>row\<in>set (board b). int (length row) = cols b)"
  by (simp add: checkRep_def checkRep_rows_iff)

lemma checkRep_rows_shape:
  "map length g' = map length g \<Longrightarrow> checkRep_rows n g' = checkRep_rows n g"
proof (induction g arbitrary: g')
  case Nil
  then show ?case by simp
next
  case (Cons row rest)
  then obtain row' rest' where g': "g' = row' # rest'" by (cases g') auto
  from Cons.prems g' have "length row' = length row" "map length rest' = map length rest"
    by simp_all
  with Cons.IH [of rest'] g' show ?case by simp
qed

lemma checkRep_shape:
  assumes "rows b' = rows b" and "cols b' = cols b"
    and "map length (board b') = map length (board b)"
  shows "checkRep b' = checkRep b"
proof -
  from assms(3) have "length (board b') = length (board b)"
    by (rule map_eq_imp_length_eq)
  moreover from assms(3) have "checkRep_rows (cols b) (board b') = checkRep_rows (cols b) (board b)"
    by (rule checkRep_rows_shape)
  ultimately show ?thesis
    unfolding checkRep_def assms(1) assms(2) by simp
qed

subsection \<open>The loops of flip\<close>

lemma rows_settle: "rows (settle s es b) = rows b"
  by (induction es arbitrary: b) (simp_all add: rows_modifyCard)

lemma cols_settle: "cols (settle s es b) = cols b"
  by (induction es arbitrary: b) (simp_all add: cols_modifyCard)

lemma shape_settle: "map length (board (settle s es b)) = map length (board b)"
  by (induction es arbitrary: b) (simp_all add: shape_modifyCard)

lemma cellAt_settle:
  "cellAt (settle s es b) r c =
     (if (r, c) \<in> set (map posOf es)
      then map_option (clearCard s) (cellAt b r c)
      else cellAt b r c)"
proof (induction es arbitrary: b)
  case Nil
  then show ?case by simp
next
  case (Cons e es)
  have idem: "map_option (clearCard s) (map_option (clearCard s) x) = map_option (clearCard s) x" for x
    by (cases x) (simp_all add: clearCard_def)
  show ?case
    by (simp add: Cons.IH cellAt_modifyCard posOf_def idem)
qed

lemma set_scanCols:
  "set (scanCols player rr checkRow ccs revealed) =
     set revealed \<union>
     {\<lparr>r_rc = rr, c_rc = cc, value_rc = value_c check\<rparr> | cc check.
        cc \<in> set ccs \<and> index checkRow cc = Some check \<and> heldBy player check}"
proof (induction ccs arbitrary: revealed)
  case Nil
  then show ?case by simp
next
  case (Cons cc ccs)
  show ?case
    by (cases "index checkRow cc") (auto simp: Cons.IH heldBy_def)
qed

lemma set_scanRows:
  "set (scanRows player b rrs revealed) =
     set revealed \<union>
     {\<lparr>r_rc = rr, c_rc = cc, value_rc = value_c check\<rparr> | rr cc check.
        rr \<in> set rrs \<and> 0 \<le> cc \<and> cc < cols b \<and> cellAt b rr cc = Some check
        \<and> heldBy player check}"
proof (induction rrs arbitrary: revealed)
  case Nil
  then show ?case by simp
next
  case (Cons rr rrs)
  show ?case
  proof (cases "index (board b) rr")
    case None
    then show ?thesis by (auto simp: Cons.IH cellAt_def)
  next
    case (Some checkRow)
    then show ?thesis by (auto simp: Cons.IH set_scanCols cellAt_def)
  qed
qed

lemma distinct_scanCols:
  "distinct (map posOf revealed) \<Longrightarrow> distinct ccs \<Longrightarrow>
   (\<forall>e\<in>set revealed. r_rc e = rr \<longrightarrow> c_rc e \<notin> set ccs) \<Longrightarrow>
   distinct (map posOf (scanCols player rr checkRow ccs revealed))"
proof (induction ccs arbitrary: revealed)
  case Nil
  then show ?case by simp
next
  case (Cons cc ccs)
  show ?case
  proof (cases "index checkRow cc")
    case None
    with Cons.prems show ?thesis by (simp add: Cons.IH)
  next
    case (Some check)
    show ?thesis
    proof (cases "heldBy player check")
      case False
      with Some Cons.prems show ?thesis by (auto simp: Cons.IH heldBy_def)
    next
      case True
      let ?e = "\<lparr>r_rc = rr, c_rc = cc, value_rc = value_c check\<rparr>"
      have "posOf ?e \<notin> posOf ` set revealed"
        using Cons.prems(3) by (auto simp: posOf_def)
      then have "distinct (map posOf (revealed @ [?e]))"
        using Cons.prems(1) by simp
      moreover have "distinct ccs" using Cons.prems by simp
      moreover have "\<forall>e\<in>set (revealed @ [?e]). r_rc e = rr \<longrightarrow> c_rc e \<notin> set ccs"
        using Cons.prems by auto
      ultimately have "distinct (map posOf (scanCols player rr checkRow ccs (revealed @ [?e])))"
        by (rule Cons.IH)
      with Some True show ?thesis by (simp add: heldBy_def)
    qed
  qed
qed

lemma distinct_scanRows:
  "distinct (map posOf revealed) \<Longrightarrow> distinct rrs \<Longrightarrow>
   (\<forall>e\<in>set revealed. r_rc e \<notin> set rrs) \<Longrightarrow>
   distinct (map posOf (scanRows player b rrs revealed))"
proof (induction rrs arbitrary: revealed)
  case Nil
  then show ?case by simp
next
  case (Cons rr rrs)
  show ?case
  proof (cases "index (board b) rr")
    case None
    with Cons.prems show ?thesis by (simp add: Cons.IH)
  next
    case (Some checkRow)
    let ?acc = "scanCols player rr checkRow [0..cols b - 1] revealed"
    have "distinct (map posOf ?acc)"
      using Cons.prems by (intro distinct_scanCols) auto
    moreover have "distinct rrs" using Cons.prems by simp
    moreover have "\<forall>e\<in>set ?acc. r_rc e \<notin> set rrs"
      using Cons.prems by (auto simp: set_scanCols)
    ultimately have "distinct (map posOf (scanRows player b rrs ?acc))"
      by (rule Cons.IH)
    with Some show ?thesis by simp
  qed
qed

lemma distinct_findRevealed: "distinct (map posOf (findRevealed b player))"
  unfolding findRevealed_def by (rule distinct_scanRows) simp_all

lemma cellAt_in_bounds:
  assumes "checkRep b = Inr ()" and "cellAt b r c = Some crd"
  shows "0 \<le> r \<and> r < rows b \<and> 0 \<le> c \<and> c < cols b"
proof -
  from assms(2) obtain rowArr where row: "index (board b) r = Some rowArr"
    and cell: "index rowArr c = Some crd"
    by (auto simp: cellAt_def split: option.splits)
  from row have "0 \<le> r" "r < int (length (board b))" "rowArr \<in> set (board b)"
    by (auto simp: index_Some_iff)
  moreover from cell have "0 \<le> c" "c < int (length rowArr)"
    by (auto simp: index_Some_iff)
  ultimately show ?thesis using assms(1) by (auto simp: checkRep_iff)
qed

lemma in_bounds_cellAt:
  assumes "checkRep b = Inr ()" and "0 \<le> r" "r < rows b" "0 \<le> c" "c < cols b"
  shows "\<exists>crd. cellAt b r c = Some crd"
proof -
  from assms have r: "r < int (length (board b))" by (simp add: checkRep_iff)
  with assms(2) have row: "index (board b) r = Some (board b ! nat r)"
    by (simp add: index_def)
  from r assms(2) have "board b ! nat r \<in> set (board b)" by simp
  with assms(1) have "int (length (board b ! nat r)) = cols b" by (simp add: checkRep_iff)
  with assms(4,5) have "index (board b ! nat r) c = Some (board b ! nat r ! nat c)"
    by (simp add: index_def)
  with row show ?thesis by (simp add: cellAt_def)
qed

lemma set_findRevealed:
  assumes "checkRep b = Inr ()"
  shows "set (findRevealed b player) =
     {\<lparr>r_rc = rr, c_rc = cc, value_rc = value_c check\<rparr> | rr cc check.
        cellAt b rr cc = Some check \<and> heldBy player check}"
  using cellAt_in_bounds [OF assms]
  by (fastforce simp: findRevealed_def set_scanRows)

subsection \<open>The branches of flip\<close>

lemma reply_eq:
  "reply ok msg player b =
     (Inr \<lparr>success = ok, message = msg, boardView = map (map (lookCard player)) (board b)\<rparr>, b)"
  by (simp add: reply_def look_def)

lemma checkedReply_ok:
  "checkRep b = Inr () \<Longrightarrow> checkedReply msg player b = reply True msg player b"
  by (simp add: checkedReply_def)

lemma snd_checkedReply: "snd (checkedReply msg player b) = b"
  by (simp add: checkedReply_def reply_eq split: sum.splits)

lemma flip_row_out:
  "index (board b) (row - 1) = None \<Longrightarrow>
     flip row col player b = reply False ''Row out of bounds'' player b"
  by (simp add: flip_def)

lemma flip_col_out:
  "index (board b) (row - 1) = Some rowArr \<Longrightarrow> index rowArr (col - 1) = None \<Longrightarrow>
     flip row col player b = reply False ''Column out of bounds'' player b"
  by (simp add: flip_def)

lemma flip_cell:
  assumes "cellAt b (row - 1) (col - 1) = Some crd"
  shows "flip row col player b =
     (if state crd \<noteq> FaceDown then reply False ''Cannot flip'' player b
      else
        let b1 = modifyCard b (row - 1) (col - 1) (revealCard player);
            revealed = findRevealed b1 player
        in if length revealed = 2 then
             (if value_rc (revealed ! 0) = value_rc (revealed ! 1) then
                checkedReply ''Match!'' player (settle Matched revealed b1)
              else
                checkedReply ''Not a match.'' player (settle FaceDown revealed b1))
           else checkedReply ''Card flipped'' player b1)"
  using assms by (auto simp: flip_def cellAt_def Let_def split: option.splits)

lemma snd_flip_cases:
  "snd (flip row col player b) = b \<or>
   (\<exists>s es. s \<noteq> Revealed \<and> snd (flip row col player b) =
      settle s es (modifyCard b (row - 1) (col - 1) (revealCard player)))"
proof (cases "cellAt b (row - 1) (col - 1)")
  case None
  then have "snd (flip row col player b) = b"
    by (auto simp: cellAt_def flip_row_out flip_col_out reply_eq split: option.splits)
  then show ?thesis ..
next
  case (Some crd)
  let ?b1 = "modifyCard b (row - 1) (col - 1) (revealCard player)"
  have "FaceDown \<noteq> Revealed \<and> ?b1 = settle FaceDown [] ?b1" by simp
  then have "\<exists>s es. s \<noteq> Revealed \<and> ?b1 = settle s es ?b1" by blast
  moreover have "\<exists>s es. s \<noteq> Revealed \<and> settle Matched xs ?b1 = settle s es ?b1" for xs
    by blast
  moreover have "\<exists>s es. s \<noteq> Revealed \<and> settle FaceDown xs ?b1 = settle s es ?b1" for xs
    by blast
  ultimately show ?thesis
    unfolding flip_cell [OF Some] Let_def
    by (simp add: reply_eq snd_checkedReply)
qed

lemma rows_flip: "rows (snd (flip row col player b)) = rows b"
  using snd_flip_cases [of row col player b]
  by (auto simp: rows_settle rows_modifyCard)

lemma cols_flip: "cols (snd (flip row col player b)) = cols b"
  using snd_flip_cases [of row col player b]
  by (auto simp: cols_settle cols_modifyCard)

lemma shape_flip: "map length (board (snd (flip row col player b))) = map length (board b)"
  using snd_flip_cases [of row col player b]
  by (auto simp: shape_settle shape_modifyCard)

lemma checkRep_flip: "checkRep (snd (flip row col player b)) = checkRep b"
  by (rule checkRep_shape) (rule rows_flip cols_flip shape_flip)+

lemma checkRep_modifyCard: "checkRep (modifyCard b r c f) = checkRep b"
  by (rule checkRep_shape) (rule rows_modifyCard cols_modifyCard shape_modifyCard)+

lemma checkRep_settle: "checkRep (settle s es b) = checkRep b"
  by (rule checkRep_shape) (rule rows_settle cols_settle shape_settle)+

lemma values_modifyCard:
  assumes "\<And>crd. value_c (f crd) = value_c crd"
  shows "map (map value_c) (board (modifyCard b r c f)) = map (map value_c) (board b)"
proof (cases "index (board b) r")
  case None
  then show ?thesis by (simp add: modifyCard_def)
next
  case (Some rowArr)
  note row = this
  show ?thesis
  proof (cases "index rowArr c")
    case None
    with row show ?thesis by (simp add: modifyCard_def)
  next
    case (Some crd)
    from row have r: "nat r < length (board b)" "board b ! nat r = rowArr"
      by (auto simp: index_Some_iff)
    from Some have c: "nat c < length rowArr" "rowArr ! nat c = crd"
      by (auto simp: index_Some_iff)
    have "map value_c (rowArr[nat c := f crd]) = map value_c rowArr"
      using c assms [of crd] by (simp add: map_update list_update_same_conv)
    then have "map (map value_c) ((board b)[nat r := rowArr[nat c := f crd]])
                 = map (map value_c) (board b)"
      using r by (simp add: map_update list_update_same_conv)
    with row Some show ?thesis by (simp add: modifyCard_def)
  qed
qed

lemma values_settle: "map (map value_c) (board (settle s es b)) = map (map value_c) (board b)"
  by (induction es arbitrary: b) (simp_all add: values_modifyCard clearCard_def)

lemma values_flip:
  "map (map value_c) (board (snd (flip row col player b))) = map (map value_c) (board b)"
  using snd_flip_cases [of row col player b]
  by (auto simp: values_settle values_modifyCard revealCard_def)

lemma index_row_None:
  assumes "checkRep b = Inr ()" and "row < 1 \<or> rows b < row"
  shows "index (board b) (row - 1) = None"
  using assms by (auto simp: checkRep_iff index_None_iff)

lemma index_col_None:
  assumes "checkRep b = Inr ()" and "index (board b) r = Some rowArr"
    and "col < 1 \<or> cols b < col"
  shows "index rowArr (col - 1) = None"
proof -
  from assms(2) have "rowArr \<in> set (board b)" by (auto simp: index_Some_iff)
  with assms(1) have "int (length rowArr) = cols b" by (simp add: checkRep_iff)
  with assms(3) show ?thesis by (auto simp: index_None_iff)
qed

subsection \<open>What the scan finds\<close>

lemma findRevealed_entry:
  assumes "checkRep b = Inr ()" and "e \<in> set (findRevealed b player)"
  shows "cellAt b (r_rc e) (c_rc e) =
           Some \<lparr>value_c = value_rc e, state = Revealed, controlledBy = Some player\<rparr>"
proof -
  from assms obtain rr cc check where e: "e = \<lparr>r_rc = rr, c_rc = cc, value_rc = value_c check\<rparr>"
    and cell: "cellAt b rr cc = Some check" and held: "heldBy player check"
    by (auto simp: set_findRevealed)
  from held have "check = \<lparr>value_c = value_c check, state = Revealed, controlledBy = Some player\<rparr>"
    by (cases check) (simp add: heldBy_def)
  with e cell show ?thesis by simp
qed

lemma findRevealed_complete:
  assumes "checkRep b = Inr ()" and "cellAt b r c = Some held" and "heldBy player held"
  shows "(r, c) \<in> set (map posOf (findRevealed b player))"
proof -
  from assms have "\<lparr>r_rc = r, c_rc = c, value_rc = value_c held\<rparr> \<in> set (findRevealed b player)"
    by (auto simp: set_findRevealed)
  then have "posOf \<lparr>r_rc = r, c_rc = c, value_rc = value_c held\<rparr>
               \<in> posOf ` set (findRevealed b player)"
    by (rule imageI)
  then show ?thesis by (simp add: posOf_def)
qed

lemma flip_pair:
  assumes "checkRep b = Inr ()"
    and "cellAt b (row - 1) (col - 1) = Some crd" and "state crd = FaceDown"
    and "findRevealed (modifyCard b (row - 1) (col - 1) (revealCard player)) player = [card1, card2]"
  shows "flip row col player b =
     reply True (if value_rc card1 = value_rc card2 then ''Match!'' else ''Not a match.'') player
       (settle (if value_rc card1 = value_rc card2 then Matched else FaceDown) [card1, card2]
          (modifyCard b (row - 1) (col - 1) (revealCard player)))"
proof -
  let ?b1 = "modifyCard b (row - 1) (col - 1) (revealCard player)"
  have "checkRep (settle s [card1, card2] ?b1) = Inr ()" for s
    using assms(1) by (simp only: checkRep_settle checkRep_modifyCard)
  then have "checkedReply msg player (settle s [card1, card2] ?b1)
               = reply True msg player (settle s [card1, card2] ?b1)" for msg s
    by (rule checkedReply_ok)
  then show ?thesis
    using assms(3,4) by (simp add: flip_cell [OF assms(2)] Let_def)
qed

subsection \<open>The loops of the constructor\<close>


lemma upto_append:
  "i \<le> j \<Longrightarrow> j \<le> k + 1 \<Longrightarrow> [i..j - 1] @ [j..k] = [i..k]"
proof (cases "j \<le> k")
  case True
  assume "i \<le> j"
  then show ?thesis using True by (rule upto_split1 [symmetric])
next
  case False
  assume "j \<le> k + 1"
  with False have "j = k + 1" by simp
  then show ?thesis by simp
qed

lemma fillRow_eq:
  "fillRow cols' shuffled c idx row =
     (row @ map (\<lambda>i. faceDown (valueOr shuffled i)) [idx..idx + (cols' - c) - 1],
      idx + max 0 (cols' - c))"
proof (induction cols' shuffled c idx row rule: fillRow.induct)
  case (1 cols' shuffled c idx row)
  show ?case
  proof (cases "c < cols'")
    case False
    then show ?thesis by (subst fillRow.simps) simp
  next
    case True
    then have "[idx..idx + (cols' - c) - 1] = idx # [idx + 1..idx + (cols' - c) - 1]"
      by (subst upto_rec1) simp_all
    moreover have "idx + 1 + (cols' - (c + 1)) - 1 = idx + (cols' - c) - 1" by simp
    ultimately show ?thesis
      using True by (subst fillRow.simps) (simp add: "1.IH" faceDown_def)
  qed
qed

lemma fillRow_start:
  "fillRow cols' shuffled 0 idx [] =
     (map (\<lambda>i. faceDown (valueOr shuffled i)) [idx..idx + cols' - 1], idx + max 0 cols')"
  by (simp add: fillRow_eq)

lemma fillBoard_step:
  "r < rows' \<Longrightarrow>
   fillBoard rows' cols' shuffled r idx grid =
     fillBoard rows' cols' shuffled (r + 1) (idx + max 0 cols')
       (grid @ [map (\<lambda>i. faceDown (valueOr shuffled i)) [idx..idx + cols' - 1]])"
  by (subst fillBoard.simps) (simp add: fillRow_start)

lemma fillBoard_stop: "\<not> r < rows' \<Longrightarrow> fillBoard rows' cols' shuffled r idx grid = grid"
  by (subst fillBoard.simps) simp

lemma fillBoard_length:
  "length (fillBoard rows' cols' shuffled r idx grid) = length grid + nat (rows' - r)"
proof (induction rows' cols' shuffled r idx grid rule: fillBoard.induct)
  case (1 rows' cols' shuffled r idx grid)
  show ?case
  proof (cases "r < rows'")
    case False
    then show ?thesis by (simp add: fillBoard_stop)
  next
    case True
    then show ?thesis
      by (simp add: fillBoard_step "1.IH" [OF True fillRow_start [symmetric]])
  qed
qed

lemma fillBoard_rows:
  assumes "row \<in> set (fillBoard rows' cols' shuffled r idx grid)"
  shows "row \<in> set grid \<or>
         (length row = nat cols' \<and> (\<forall>crd\<in>set row. state crd = FaceDown \<and> controlledBy crd = None))"
  using assms
proof (induction rows' cols' shuffled r idx grid rule: fillBoard.induct)
  case (1 rows' cols' shuffled r idx grid)
  show ?case
  proof (cases "r < rows'")
    case False
    with "1.prems" show ?thesis by (simp add: fillBoard_stop)
  next
    case True
    let ?new = "map (\<lambda>i. faceDown (valueOr shuffled i)) [idx..idx + cols' - 1]"
    from "1.prems" True
    have "row \<in> set (fillBoard rows' cols' shuffled (r + 1) (idx + max 0 cols') (grid @ [?new]))"
      by (simp add: fillBoard_step)
    then have "row \<in> set (grid @ [?new]) \<or>
         (length row = nat cols' \<and> (\<forall>crd\<in>set row. state crd = FaceDown \<and> controlledBy crd = None))"
      by (rule "1.IH" [OF True fillRow_start [symmetric]])
    moreover have "length ?new = nat cols'" by simp
    moreover have "\<forall>crd\<in>set ?new. state crd = FaceDown \<and> controlledBy crd = None"
      by (simp add: faceDown_def)
    ultimately show ?thesis by auto
  qed
qed

lemma fillBoard_values:
  "concat (map (map value_c) (fillBoard rows' cols' shuffled r idx grid)) =
     concat (map (map value_c) grid)
       @ map (valueOr shuffled) [idx..idx + (rows' - r) * max 0 cols' - 1]"
proof (induction rows' cols' shuffled r idx grid rule: fillBoard.induct)
  case (1 rows' cols' shuffled r idx grid)
  let ?w = "max 0 cols'"
  show ?case
  proof (cases "r < rows'")
    case False
    then have "(rows' - r) * ?w \<le> 0" by (simp add: mult_nonpos_nonneg)
    then have "[idx..idx + (rows' - r) * ?w - 1] = []" by simp
    with False show ?thesis by (simp add: fillBoard_stop)
  next
    case True
    let ?new = "map (\<lambda>i. faceDown (valueOr shuffled i)) [idx..idx + cols' - 1]"
    have step: "fillBoard rows' cols' shuffled r idx grid =
        fillBoard rows' cols' shuffled (r + 1) (idx + ?w) (grid @ [?new])"
      using True by (rule fillBoard_step)
    have new: "map value_c ?new = map (valueOr shuffled) [idx..idx + ?w - 1]"
      by (cases "0 < cols'") (simp_all add: faceDown_def comp_def max_def)
    have prod: "(rows' - r) * ?w = ?w + (rows' - (r + 1)) * ?w" by (simp add: algebra_simps)
    have "0 \<le> (rows' - (r + 1)) * ?w" using True by simp
    with prod have "idx + ?w \<le> idx + (rows' - r) * ?w - 1 + 1" by simp
    with _ have "[idx..idx + ?w - 1] @ [idx + ?w..idx + (rows' - r) * ?w - 1]
        = [idx..idx + (rows' - r) * ?w - 1]"
      by (rule upto_append) simp
    then have split: "map (valueOr shuffled) [idx..idx + ?w - 1]
          @ map (valueOr shuffled) [idx + ?w..idx + ?w + (rows' - (r + 1)) * ?w - 1]
        = map (valueOr shuffled) [idx..idx + (rows' - r) * ?w - 1]"
      unfolding prod by (simp add: add.assoc flip: map_append)
    have "concat (map (map value_c) (fillBoard rows' cols' shuffled r idx grid)) =
        concat (map (map value_c) (grid @ [?new]))
          @ map (valueOr shuffled) [idx + ?w..idx + ?w + (rows' - (r + 1)) * ?w - 1]"
      unfolding step by (rule "1.IH" [OF True fillRow_start [symmetric]])
    also have "\<dots> = concat (map (map value_c) grid)
          @ (map (valueOr shuffled) [idx..idx + ?w - 1]
             @ map (valueOr shuffled) [idx + ?w..idx + ?w + (rows' - (r + 1)) * ?w - 1])"
      using new by simp
    finally show ?thesis unfolding split .
  qed
qed

lemma valueOr_upto:
  "map (valueOr shuffled) [0..int n - 1] = take n shuffled @ replicate (n - length shuffled) ''''"
proof (induction n)
  case 0
  then show ?case by simp
next
  case (Suc n)
  have "[0..int (Suc n) - 1] = [0..int n - 1] @ [int n]"
    by (subst upto_rec2) simp_all
  moreover have "valueOr shuffled (int n) = (if n < length shuffled then shuffled ! n else '''')"
    by (simp add: valueOr_def index_def)
  ultimately show ?case
    by (cases "n < length shuffled")
       (simp_all add: Suc.IH take_Suc_conv_app_nth Suc_diff_le replicate_append_same)
qed

subsection \<open>The constructor\<close>

lemma constructFrom_Inr:
  assumes "constructFrom rows' cols' shuffled = Inr b"
  shows "b = \<lparr>rows = rows', cols = cols', board = fillBoard rows' cols' shuffled 0 0 []\<rparr>"
  using assms by (simp add: constructFrom_def Let_def split: sum.splits)

lemma constructFrom_ok:
  assumes "0 \<le> rows'" and "0 \<le> cols'"
  shows "constructFrom rows' cols' shuffled =
           Inr \<lparr>rows = rows', cols = cols', board = fillBoard rows' cols' shuffled 0 0 []\<rparr>"
proof -
  let ?b = "\<lparr>rows = rows', cols = cols', board = fillBoard rows' cols' shuffled 0 0 []\<rparr>"
  have "int (length (board ?b)) = rows ?b"
    using assms(1) by (simp add: fillBoard_length)
  moreover have "int (length row) = cols ?b" if "row \<in> set (board ?b)" for row
    using fillBoard_rows [of row rows' cols' shuffled 0 0 "[]"] that assms(2) by simp
  ultimately have "checkRep ?b = Inr ()" by (simp only: checkRep_iff) blast
  then show ?thesis by (simp add: constructFrom_def)
qed

lemma constructed_controllerInv:
  assumes "constructFrom rows' cols' shuffled = Inr b"
  shows "controllerInv b"
proof -
  have "controllerOk crd"
    if "row \<in> set (fillBoard rows' cols' shuffled 0 0 [])" "crd \<in> set row" for row crd
    using fillBoard_rows [OF that(1)] that(2) by (simp add: controllerOk_def)
  then show ?thesis
    unfolding constructFrom_Inr [OF assms] controllerInv_def by (simp add: list_all_iff)
qed

subsection \<open>The controller invariant under updates\<close>

lemma controllerInv_modifyCard:
  assumes "controllerInv b" and "\<And>crd. controllerOk (f crd)"
  shows "controllerInv (modifyCard b r c f)"
proof (cases "index (board b) r")
  case None
  with assms(1) show ?thesis by (simp add: modifyCard_def)
next
  case (Some rowArr)
  note row = this
  show ?thesis
  proof (cases "index rowArr c")
    case None
    with row assms(1) show ?thesis by (simp add: modifyCard_def)
  next
    case (Some crd)
    from row have "rowArr \<in> set (board b)" by (auto simp: index_Some_iff)
    with assms(1) have "\<forall>x\<in>set rowArr. controllerOk x"
      by (simp add: controllerInv_def list_all_iff)
    with assms(2) have "\<forall>x\<in>set (rowArr[nat c := f crd]). controllerOk x"
      using set_update_subset_insert [of rowArr "nat c" "f crd"] by auto
    with assms(1) have "\<forall>xs\<in>set ((board b)[nat r := rowArr[nat c := f crd]]). \<forall>x\<in>set xs. controllerOk x"
      using set_update_subset_insert [of "board b" "nat r" "rowArr[nat c := f crd]"]
      by (auto simp: controllerInv_def list_all_iff)
    with row Some show ?thesis by (simp add: modifyCard_def controllerInv_def list_all_iff)
  qed
qed

lemma controllerInv_settle:
  "s \<noteq> Revealed \<Longrightarrow> controllerInv b \<Longrightarrow> controllerInv (settle s es b)"
proof (induction es arbitrary: b)
  case Nil
  then show ?case by simp
next
  case (Cons e es)
  from Cons.prems have "controllerInv (modifyCard b (r_rc e) (c_rc e) (clearCard s))"
    by (intro controllerInv_modifyCard) (simp_all add: controllerOk_def clearCard_def)
  with Cons.prems(1) show ?case by (simp add: Cons.IH)
qed

lemma controllerInv_flip:
  assumes "controllerInv b"
  shows "controllerInv (snd (flip row col player b))"
proof -
  have "controllerInv (modifyCard b (row - 1) (col - 1) (revealCard player))"
    using assms by (rule controllerInv_modifyCard) (simp add: controllerOk_def revealCard_def)
  then have "controllerInv (settle s es (modifyCard b (row - 1) (col - 1) (revealCard player)))"
    if "s \<noteq> Revealed" for s es
    using that by (intro controllerInv_settle)
  with assms snd_flip_cases [of row col player b] show ?thesis by auto
qed

lemma controllerInv_cell:
  assumes "controllerInv b" and "cellAt b r c = Some crd"
  shows "controllerOk crd"
proof -
  from assms(2) obtain rowArr where row: "index (board b) r = Some rowArr"
    and cell: "index rowArr c = Some crd"
    by (auto simp: cellAt_def split: option.splits)
  from row have "rowArr \<in> set (board b)" by (auto simp: index_Some_iff)
  moreover from cell have "crd \<in> set rowArr" by (auto simp: index_Some_iff)
  ultimately show ?thesis using assms(1) by (auto simp: controllerInv_def list_all_iff)
qed

lemma reachable_checkRep: "reachable b \<Longrightarrow> checkRep b = Inr ()"
proof (induction rule: reachable.induct)
  case (constructed rows' cols' cards b)
  then obtain shuffled where "constructFrom rows' cols' shuffled = Inr b"
    by (auto elim: constructor.cases)
  then show ?case by (auto simp: constructFrom_def Let_def split: sum.splits)
next
  case (flipped b row col player)
  then show ?case by (simp add: checkRep_flip)
qed

section \<open>Rejected flips and the first card\<close>

text \<open>
  Every board the constructor returns has passed \<^verbatim>\<open>checkRep\<close>, and a flip does not
  change the shape of the grid (\<open>reachable_checkRep\<close>); the statements about \<^verbatim>\<open>flip\<close>
  are about such boards.

  \<^bold>\<open>C3.\<close> On a board that passes \<^verbatim>\<open>checkRep\<close>, a flip whose row is outside
  \<open>[1, rows]\<close> or whose column is outside \<open>[1, cols]\<close> returns normally with
  \<open>success = False\<close>; the message names the row when the row is invalid (it is tested
  first) and the column otherwise; the board is left as it was, and the view returned
  is \<^verbatim>\<open>look(player)\<close> of that unchanged board.
\<close>

theorem flip_out_of_bounds:
  assumes "checkRep b = Inr ()"
    and "row < 1 \<or> rows b < row \<or> col < 1 \<or> cols b < col"
  shows "flip row col player b =
     (Inr \<lparr>success = False,
           message = (if row < 1 \<or> rows b < row then ''Row out of bounds''
                      else ''Column out of bounds''),
           boardView = fst (look player b)\<rparr>, b)"
proof (cases "row < 1 \<or> rows b < row")
  case True
  with assms(1) have "index (board b) (row - 1) = None" by (rule index_row_None)
  with True show ?thesis by (simp add: flip_row_out reply_eq look_def)
next
  case False
  with assms(1) have "\<exists>rowArr. index (board b) (row - 1) = Some rowArr"
    by (auto simp: checkRep_iff index_def)
  then obtain rowArr where row: "index (board b) (row - 1) = Some rowArr" ..
  from False assms(2) have "col < 1 \<or> cols b < col" by blast
  with assms(1) row have "index rowArr (col - 1) = None" by (rule index_col_None)
  with row False show ?thesis by (simp add: flip_col_out reply_eq look_def)
qed

theorem flip_out_of_bounds_witness:
  "checkRep boardAB = Inr ()
   \<and> flip 0 1 ''p1'' boardAB =
       (Inr \<lparr>success = False, message = ''Row out of bounds'',
             boardView = [[hidden, hidden]]\<rparr>, boardAB)
   \<and> flip 1 3 ''p1'' boardAB =
       (Inr \<lparr>success = False, message = ''Column out of bounds'',
             boardView = [[hidden, hidden]]\<rparr>, boardAB)"
proof -
  have ok: "checkRep boardAB = Inr ()" by code_simp
  have v: "fst (look ''p1'' boardAB) = [[hidden, hidden]]" by code_simp
  have "(0::int) < 1 \<or> rows boardAB < 0 \<or> (1::int) < 1 \<or> cols boardAB < 1" by simp
  from flip_out_of_bounds [OF ok this, of "''p1''"]
  have a: "flip 0 1 ''p1'' boardAB =
       (Inr \<lparr>success = False, message = ''Row out of bounds'',
             boardView = [[hidden, hidden]]\<rparr>, boardAB)"
    by (simp add: v)
  have "(1::int) < 1 \<or> rows boardAB < 1 \<or> (3::int) < 1 \<or> cols boardAB < 3"
    by (simp add: boardAB_def)
  moreover have "\<not> ((1::int) < 1 \<or> rows boardAB < 1)"
    by (simp add: boardAB_def)
  ultimately have b: "flip 1 3 ''p1'' boardAB =
       (Inr \<lparr>success = False, message = ''Column out of bounds'',
             boardView = [[hidden, hidden]]\<rparr>, boardAB)"
    using flip_out_of_bounds [OF ok, of 1 3 "''p1''"] by (simp add: v)
  from ok a b show ?thesis by blast
qed

text \<open>
  \<^bold>\<open>C4.\<close> On a board that passes \<^verbatim>\<open>checkRep\<close>, in-bounds coordinates address a card;
  when that card is not face-down (revealed by any player, the caller included, or
  matched), the flip returns normally with \<open>success = False\<close> and the message
  \<open>Cannot flip\<close>, and the whole board is left as it was.
\<close>

theorem flip_not_face_down:
  assumes "checkRep b = Inr ()"
    and "1 \<le> row" and "row \<le> rows b" and "1 \<le> col" and "col \<le> cols b"
  shows "\<exists>crd. cellAt b (row - 1) (col - 1) = Some crd \<and>
     (state crd \<noteq> FaceDown \<longrightarrow>
        flip row col player b =
          (Inr \<lparr>success = False, message = ''Cannot flip'',
                boardView = fst (look player b)\<rparr>, b))"
proof -
  from assms obtain crd where cell: "cellAt b (row - 1) (col - 1) = Some crd"
    using in_bounds_cellAt [of b "row - 1" "col - 1"] by auto
  have "state crd \<noteq> FaceDown \<longrightarrow>
        flip row col player b =
          (Inr \<lparr>success = False, message = ''Cannot flip'',
                boardView = fst (look player b)\<rparr>, b)"
    by (simp add: flip_cell [OF cell] reply_eq look_def)
  with cell show ?thesis by blast
qed

theorem flip_not_face_down_witness:
  "checkRep boardAB1 = Inr ()
   \<and> cellAt boardAB1 (1 - 1) (1 - 1) = Some (faceUp ''A'' ''p1'')
   \<and> flip 1 1 ''p1'' boardAB1 =
       (Inr \<lparr>success = False, message = ''Cannot flip'',
             boardView = fst (look ''p1'' boardAB1)\<rparr>, boardAB1)
   \<and> flip 1 1 ''p2'' boardAB1 =
       (Inr \<lparr>success = False, message = ''Cannot flip'',
             boardView = [[hidden, hidden]]\<rparr>, boardAB1)"
proof -
  have ok: "checkRep boardAB1 = Inr ()" by code_simp
  have cell: "cellAt boardAB1 (1 - 1) (1 - 1) = Some (faceUp ''A'' ''p1'')" by code_simp
  have st: "state (faceUp ''A'' ''p1'') \<noteq> FaceDown" by (simp add: faceUp_def)
  have v: "fst (look ''p2'' boardAB1) = [[hidden, hidden]]" by code_simp
  have bounds: "(1::int) \<le> 1" "1 \<le> rows boardAB1" "1 \<le> cols boardAB1"
    by (simp_all add: boardAB1_def)
  from flip_not_face_down [OF ok bounds(1) bounds(2) bounds(1) bounds(3), of "''p1''"] cell st
  have a: "flip 1 1 ''p1'' boardAB1 =
       (Inr \<lparr>success = False, message = ''Cannot flip'',
             boardView = fst (look ''p1'' boardAB1)\<rparr>, boardAB1)"
    by auto
  from flip_not_face_down [OF ok bounds(1) bounds(2) bounds(1) bounds(3), of "''p2''"] cell st
  have b: "flip 1 1 ''p2'' boardAB1 =
       (Inr \<lparr>success = False, message = ''Cannot flip'',
             boardView = [[hidden, hidden]]\<rparr>, boardAB1)"
    by (auto simp: v)
  from ok cell a b show ?thesis by blast
qed

text \<open>
  \<^bold>\<open>C6.\<close> A flip of a face-down card after which the scan for the player's revealed
  cards does not find exactly two returns \<open>success = True\<close> with the message
  \<open>Card flipped\<close> and the view after the flip; the card addressed keeps its value and is
  now revealed and controlled by the player; every other cell, and the shape of the
  grid, is as before.
\<close>

theorem flip_first_card:
  assumes "checkRep b = Inr ()"
    and "cellAt b (row - 1) (col - 1) = Some crd" and "state crd = FaceDown"
    and "length (findRevealed (modifyCard b (row - 1) (col - 1) (revealCard player)) player) \<noteq> 2"
  shows "fst (flip row col player b) =
           Inr \<lparr>success = True, message = ''Card flipped'',
                boardView = fst (look player (snd (flip row col player b)))\<rparr>
       \<and> cellAt (snd (flip row col player b)) (row - 1) (col - 1) =
           Some \<lparr>value_c = value_c crd, state = Revealed, controlledBy = Some player\<rparr>
       \<and> (\<forall>r c. (r, c) \<noteq> (row - 1, col - 1) \<longrightarrow>
             cellAt (snd (flip row col player b)) r c = cellAt b r c)
       \<and> map length (board (snd (flip row col player b))) = map length (board b)"
proof -
  let ?b1 = "modifyCard b (row - 1) (col - 1) (revealCard player)"
  have ok: "checkRep ?b1 = Inr ()" using assms(1) by (simp add: checkRep_modifyCard)
  have eq: "flip row col player b = reply True ''Card flipped'' player ?b1"
    using assms(3,4) ok by (simp add: flip_cell [OF assms(2)] Let_def checkedReply_ok)
  have "revealCard player crd = \<lparr>value_c = value_c crd, state = Revealed, controlledBy = Some player\<rparr>"
    by (simp add: revealCard_def)
  then show ?thesis
    using assms(2) by (simp add: eq reply_eq look_def cellAt_modifyCard shape_modifyCard)
qed

theorem flip_first_card_witness:
  "checkRep boardAB = Inr ()
   \<and> cellAt boardAB (1 - 1) (1 - 1) = Some (faceDown ''A'')
   \<and> length (findRevealed (modifyCard boardAB (1 - 1) (1 - 1) (revealCard ''p1'')) ''p1'') = 1
   \<and> fst (flip 1 1 ''p1'' boardAB) =
       Inr \<lparr>success = True, message = ''Card flipped'',
            boardView = fst (look ''p1'' (snd (flip 1 1 ''p1'' boardAB)))\<rparr>
   \<and> cellAt (snd (flip 1 1 ''p1'' boardAB)) (1 - 1) (1 - 1) = Some (faceUp ''A'' ''p1'')
   \<and> cellAt (snd (flip 1 1 ''p1'' boardAB)) 0 1 = Some (faceDown ''B'')"
proof -
  have ok: "checkRep boardAB = Inr ()" by code_simp
  have cell: "cellAt boardAB (1 - 1) (1 - 1) = Some (faceDown ''A'')" by code_simp
  have st: "state (faceDown ''A'') = FaceDown" by (simp add: faceDown_def)
  have len: "length (findRevealed (modifyCard boardAB (1 - 1) (1 - 1) (revealCard ''p1'')) ''p1'') = 1"
    by code_simp
  then have ne: "length (findRevealed (modifyCard boardAB (1 - 1) (1 - 1) (revealCard ''p1'')) ''p1'') \<noteq> 2"
    by simp
  have other: "cellAt boardAB 0 1 = Some (faceDown ''B'')" by code_simp
  note t = flip_first_card [OF ok cell st ne]
  from t have "cellAt (snd (flip 1 1 ''p1'' boardAB)) 0 1 = cellAt boardAB 0 1" by simp
  with t ok cell len other show ?thesis by (simp add: faceDown_def faceUp_def)
qed

section \<open>The second card\<close>

text \<open>
  \<^bold>\<open>C1.\<close> A flip of a face-down card on a board that passes \<^verbatim>\<open>checkRep\<close>, after which
  the scan finds exactly two cards revealed by the player: the two entries are two
  different cells, each a card revealed by the player with the value recorded, and
  they are all the cells the player holds. The flip returns \<open>success = True\<close>; when the
  two values are equal the message is \<open>Match!\<close> and both cards end \<open>Matched\<close> with no
  controller; otherwise the message is \<open>Not a match.\<close> and both cards end \<open>FaceDown\<close> with
  no controller.
\<close>

theorem flip_second_card:
  assumes "checkRep b = Inr ()"
    and "cellAt b (row - 1) (col - 1) = Some crd" and "state crd = FaceDown"
    and "findRevealed (modifyCard b (row - 1) (col - 1) (revealCard player)) player = [card1, card2]"
  shows "fst (flip row col player b) =
           Inr \<lparr>success = True,
                message = (if value_rc card1 = value_rc card2 then ''Match!'' else ''Not a match.''),
                boardView = fst (look player (snd (flip row col player b)))\<rparr>
       \<and> posOf card1 \<noteq> posOf card2
       \<and> cellAt (modifyCard b (row - 1) (col - 1) (revealCard player)) (r_rc card1) (c_rc card1) =
           Some \<lparr>value_c = value_rc card1, state = Revealed, controlledBy = Some player\<rparr>
       \<and> cellAt (modifyCard b (row - 1) (col - 1) (revealCard player)) (r_rc card2) (c_rc card2) =
           Some \<lparr>value_c = value_rc card2, state = Revealed, controlledBy = Some player\<rparr>
       \<and> (\<forall>r c held.
             cellAt (modifyCard b (row - 1) (col - 1) (revealCard player)) r c = Some held
             \<and> heldBy player held \<longrightarrow> (r, c) = posOf card1 \<or> (r, c) = posOf card2)
       \<and> cellAt (snd (flip row col player b)) (r_rc card1) (c_rc card1) =
           Some \<lparr>value_c = value_rc card1,
                 state = (if value_rc card1 = value_rc card2 then Matched else FaceDown),
                 controlledBy = None\<rparr>
       \<and> cellAt (snd (flip row col player b)) (r_rc card2) (c_rc card2) =
           Some \<lparr>value_c = value_rc card2,
                 state = (if value_rc card1 = value_rc card2 then Matched else FaceDown),
                 controlledBy = None\<rparr>"
proof -
  let ?b1 = "modifyCard b (row - 1) (col - 1) (revealCard player)"
  let ?s = "if value_rc card1 = value_rc card2 then Matched else FaceDown"
  let ?b2 = "settle ?s [card1, card2] ?b1"
  have ok1: "checkRep ?b1 = Inr ()" using assms(1) by (simp add: checkRep_modifyCard)
  have eq: "flip row col player b =
      reply True (if value_rc card1 = value_rc card2 then ''Match!'' else ''Not a match.'') player ?b2"
    using assms by (rule flip_pair)
  have res: "fst (flip row col player b) =
           Inr \<lparr>success = True,
                message = (if value_rc card1 = value_rc card2 then ''Match!'' else ''Not a match.''),
                boardView = fst (look player (snd (flip row col player b)))\<rparr>"
    unfolding eq by (simp add: reply_eq look_def)
  have b2: "snd (flip row col player b) = ?b2"
    unfolding eq by (simp add: reply_eq)
  have "distinct (map posOf (findRevealed ?b1 player))" by (rule distinct_findRevealed)
  then have ne: "posOf card1 \<noteq> posOf card2" by (simp add: assms(4))
  have c1: "cellAt ?b1 (r_rc card1) (c_rc card1) =
           Some \<lparr>value_c = value_rc card1, state = Revealed, controlledBy = Some player\<rparr>"
    using ok1 by (rule findRevealed_entry) (simp add: assms(4))
  have c2: "cellAt ?b1 (r_rc card2) (c_rc card2) =
           Some \<lparr>value_c = value_rc card2, state = Revealed, controlledBy = Some player\<rparr>"
    using ok1 by (rule findRevealed_entry) (simp add: assms(4))
  have all: "(r, c) = posOf card1 \<or> (r, c) = posOf card2"
    if "cellAt ?b1 r c = Some held \<and> heldBy player held" for r c held
  proof -
    from that have "(r, c) \<in> set (map posOf (findRevealed ?b1 player))"
      using findRevealed_complete [OF ok1] by blast
    then show ?thesis by (auto simp: assms(4))
  qed
  have d1: "cellAt ?b2 (r_rc card1) (c_rc card1) =
           Some \<lparr>value_c = value_rc card1, state = ?s, controlledBy = None\<rparr>"
    by (simp add: cellAt_settle c1 posOf_def clearCard_def del: settle.simps)
  have d2: "cellAt ?b2 (r_rc card2) (c_rc card2) =
           Some \<lparr>value_c = value_rc card2, state = ?s, controlledBy = None\<rparr>"
    by (simp add: cellAt_settle c2 posOf_def clearCard_def del: settle.simps)
  from res ne c1 c2 all d1 d2 show ?thesis unfolding b2 by blast
qed

theorem flip_second_card_witness:
  "checkRep boardAA1 = Inr ()
   \<and> cellAt boardAA1 (1 - 1) (2 - 1) = Some (faceDown ''A'')
   \<and> findRevealed (modifyCard boardAA1 (1 - 1) (2 - 1) (revealCard ''p1'')) ''p1'' =
       [\<lparr>r_rc = 0, c_rc = 0, value_rc = ''A''\<rparr>, \<lparr>r_rc = 0, c_rc = 1, value_rc = ''A''\<rparr>]
   \<and> fst (flip 1 2 ''p1'' boardAA1) =
       Inr \<lparr>success = True, message = ''Match!'',
            boardView = fst (look ''p1'' (snd (flip 1 2 ''p1'' boardAA1)))\<rparr>
   \<and> cellAt (snd (flip 1 2 ''p1'' boardAA1)) 0 0 =
       Some \<lparr>value_c = ''A'', state = Matched, controlledBy = None\<rparr>
   \<and> cellAt (snd (flip 1 2 ''p1'' boardAA1)) 0 1 =
       Some \<lparr>value_c = ''A'', state = Matched, controlledBy = None\<rparr>
   \<and> fst (flip 1 2 ''p1'' boardAB1) =
       Inr \<lparr>success = True, message = ''Not a match.'',
            boardView = fst (look ''p1'' (snd (flip 1 2 ''p1'' boardAB1)))\<rparr>
   \<and> cellAt (snd (flip 1 2 ''p1'' boardAB1)) 0 0 =
       Some \<lparr>value_c = ''A'', state = FaceDown, controlledBy = None\<rparr>
   \<and> cellAt (snd (flip 1 2 ''p1'' boardAB1)) 0 1 =
       Some \<lparr>value_c = ''B'', state = FaceDown, controlledBy = None\<rparr>"
proof -
  have ok': "checkRep boardAB1 = Inr ()" by code_simp
  have cell': "cellAt boardAB1 (1 - 1) (2 - 1) = Some (faceDown ''B'')" by code_simp
  have st': "state (faceDown ''B'') = FaceDown" by (simp add: faceDown_def)
  have scan': "findRevealed (modifyCard boardAB1 (1 - 1) (2 - 1) (revealCard ''p1'')) ''p1'' =
       [\<lparr>r_rc = 0, c_rc = 0, value_rc = ''A''\<rparr>, \<lparr>r_rc = 0, c_rc = 1, value_rc = ''B''\<rparr>]"
    by code_simp
  note t' = flip_second_card [OF ok' cell' st' scan']
  have ok: "checkRep boardAA1 = Inr ()" by code_simp
  have cell: "cellAt boardAA1 (1 - 1) (2 - 1) = Some (faceDown ''A'')" by code_simp
  have st: "state (faceDown ''A'') = FaceDown" by (simp add: faceDown_def)
  have scan: "findRevealed (modifyCard boardAA1 (1 - 1) (2 - 1) (revealCard ''p1'')) ''p1'' =
       [\<lparr>r_rc = 0, c_rc = 0, value_rc = ''A''\<rparr>, \<lparr>r_rc = 0, c_rc = 1, value_rc = ''A''\<rparr>]"
    by code_simp
  note t = flip_second_card [OF ok cell st scan]
  from t t' ok cell scan show ?thesis by simp
qed

text \<open>
  \<^bold>\<open>C10.\<close> On a board that passes \<^verbatim>\<open>checkRep\<close>, a flip keeps \<^verbatim>\<open>rows\<close>, \<^verbatim>\<open>cols\<close>, the
  shape of the grid and the value of every card. Either every cell other than the one
  addressed is as before, or the flip ended a pair (message \<open>Match!\<close> or
  \<open>Not a match.\<close>) and there is one other cell, a card the player held revealed before
  the call, such that every cell other than these two is as before.
\<close>

theorem flip_frame:
  assumes "checkRep b = Inr ()"
  shows "rows (snd (flip row col player b)) = rows b
       \<and> cols (snd (flip row col player b)) = cols b
       \<and> map length (board (snd (flip row col player b))) = map length (board b)
       \<and> map (map value_c) (board (snd (flip row col player b))) = map (map value_c) (board b)
       \<and> ((\<forall>r c. (r, c) \<noteq> (row - 1, col - 1) \<longrightarrow>
              cellAt (snd (flip row col player b)) r c = cellAt b r c)
          \<or> (\<exists>res other held.
                fst (flip row col player b) = Inr res
                \<and> (message res = ''Match!'' \<or> message res = ''Not a match.'')
                \<and> other \<noteq> (row - 1, col - 1)
                \<and> cellAt b (fst other) (snd other) = Some held \<and> heldBy player held
                \<and> (\<forall>r c. (r, c) \<noteq> (row - 1, col - 1) \<longrightarrow> (r, c) \<noteq> other \<longrightarrow>
                      cellAt (snd (flip row col player b)) r c = cellAt b r c)))"
proof -
  let ?t = "(row - 1, col - 1)"
  let ?b1 = "modifyCard b (row - 1) (col - 1) (revealCard player)"
  let ?b' = "snd (flip row col player b)"
  let ?only = "\<forall>r c. (r, c) \<noteq> ?t \<longrightarrow> cellAt ?b' r c = cellAt b r c"
  let ?pair = "\<exists>res other held.
                fst (flip row col player b) = Inr res
                \<and> (message res = ''Match!'' \<or> message res = ''Not a match.'')
                \<and> other \<noteq> ?t
                \<and> cellAt b (fst other) (snd other) = Some held \<and> heldBy player held
                \<and> (\<forall>r c. (r, c) \<noteq> ?t \<longrightarrow> (r, c) \<noteq> other \<longrightarrow> cellAt ?b' r c = cellAt b r c)"
  have b1: "(r, c) \<noteq> ?t \<Longrightarrow> cellAt ?b1 r c = cellAt b r c" for r c
    by (auto simp: cellAt_modifyCard)
  have cells: "?only \<or> ?pair"
  proof (cases "cellAt b (row - 1) (col - 1)")
    case None
    then have "?b' = b"
      by (auto simp: cellAt_def flip_row_out flip_col_out reply_eq split: option.splits)
    then show ?thesis by simp
  next
    case (Some crd)
    show ?thesis
    proof (cases "state crd = FaceDown")
      case False
      then have "?b' = b" by (simp add: flip_cell [OF Some] reply_eq)
      then show ?thesis by simp
    next
      case True
      have ok1: "checkRep ?b1 = Inr ()" using assms by (simp add: checkRep_modifyCard)
      show ?thesis
      proof (cases "length (findRevealed ?b1 player) = 2")
        case False
        with True have "?b' = ?b1"
          by (simp add: flip_cell [OF Some] Let_def snd_checkedReply)
        with b1 have ?only by simp
        then show ?thesis ..
      next
        case two: True
        then obtain card1 card2 where scan: "findRevealed ?b1 player = [card1, card2]"
          by (auto simp: length_Suc_conv numeral_2_eq_2)
        let ?s = "if value_rc card1 = value_rc card2 then Matched else FaceDown"
        let ?msg = "if value_rc card1 = value_rc card2 then ''Match!'' else ''Not a match.''"
        have eq: "flip row col player b = reply True ?msg player (settle ?s [card1, card2] ?b1)"
          using assms Some True scan by (rule flip_pair)
        have b': "?b' = settle ?s [card1, card2] ?b1" unfolding eq by (simp add: reply_eq)
        have rest: "cellAt ?b' r c = cellAt b r c"
          if "(r, c) \<noteq> posOf card1" "(r, c) \<noteq> posOf card2" "(r, c) \<noteq> ?t" for r c
          unfolding b' using that b1 [of r c] by (simp add: cellAt_settle del: settle.simps)
        have "distinct (map posOf (findRevealed ?b1 player))" by (rule distinct_findRevealed)
        then have ne: "posOf card1 \<noteq> posOf card2" by (simp add: scan)
        have "cellAt ?b1 (row - 1) (col - 1) = Some (revealCard player crd)"
          by (simp add: cellAt_modifyCard Some)
        moreover have "heldBy player (revealCard player crd)"
          by (simp add: heldBy_def revealCard_def)
        ultimately have "?t \<in> set (map posOf (findRevealed ?b1 player))"
          using ok1 by (intro findRevealed_complete)
        then have target: "?t = posOf card1 \<or> ?t = posOf card2" by (auto simp: scan)
        define other where "other = (if ?t = posOf card1 then card2 else card1)"
        have o_in: "other \<in> set (findRevealed ?b1 player)" by (simp add: other_def scan)
        have o_ne: "posOf other \<noteq> ?t" using target ne by (auto simp: other_def)
        have o_rest: "cellAt ?b' r c = cellAt b r c"
          if h: "(r, c) \<noteq> ?t" "(r, c) \<noteq> posOf other" for r c
        proof (cases "?t = posOf card1")
          case True
          then have "other = card2" unfolding other_def by (rule if_P)
          with h(2) have "(r, c) \<noteq> posOf card2" by blast
          moreover from h(1) True have "(r, c) \<noteq> posOf card1" by metis
          ultimately show ?thesis using h(1) by (intro rest)
        next
          case False
          then have "other = card1" unfolding other_def by (rule if_not_P)
          with h(2) have "(r, c) \<noteq> posOf card1" by blast
          moreover from False target have "?t = posOf card2" by blast
          with h(1) have "(r, c) \<noteq> posOf card2" by metis
          ultimately show ?thesis using h(1) by (intro rest)
        qed
        from findRevealed_entry [OF ok1 o_in] b1 [of "r_rc other" "c_rc other"] o_ne
        have o_cell: "cellAt b (fst (posOf other)) (snd (posOf other)) =
            Some \<lparr>value_c = value_rc other, state = Revealed, controlledBy = Some player\<rparr>"
          by (simp add: posOf_def)
        have o_held: "heldBy player \<lparr>value_c = value_rc other, state = Revealed, controlledBy = Some player\<rparr>"
          by (simp add: heldBy_def)
        have res: "fst (flip row col player b) =
            Inr \<lparr>success = True, message = ?msg, boardView = fst (look player ?b')\<rparr>"
          unfolding eq by (simp add: reply_eq look_def)
        have msg: "message \<lparr>success = True, message = ?msg, boardView = fst (look player ?b')\<rparr> = ''Match!''
            \<or> message \<lparr>success = True, message = ?msg, boardView = fst (look player ?b')\<rparr> = ''Not a match.''"
          by simp
        from res msg o_ne o_cell o_held o_rest have ?pair by blast
        then show ?thesis ..
      qed
    qed
  qed
  show ?thesis
    using cells rows_flip [of row col player b] cols_flip [of row col player b]
      shape_flip [of row col player b] values_flip [of row col player b]
    by blast
qed

theorem flip_frame_witness:
  "checkRep boardAB1 = Inr ()
   \<and> rows (snd (flip 1 2 ''p1'' boardAB1)) = 1
   \<and> cols (snd (flip 1 2 ''p1'' boardAB1)) = 2
   \<and> map (map value_c) (board (snd (flip 1 2 ''p1'' boardAB1))) = [[''A'', ''B'']]
   \<and> snd (flip 1 2 ''p1'' boardAB1) = boardAB
   \<and> snd (flip 1 2 ''p2'' boardAB1) =
       \<lparr>rows = 1, cols = 2, board = [[faceUp ''A'' ''p1'', faceUp ''B'' ''p2'']]\<rparr>"
proof -
  have ok: "checkRep boardAB1 = Inr ()" by code_simp
  have a: "snd (flip 1 2 ''p1'' boardAB1) = boardAB" by code_simp
  have b: "snd (flip 1 2 ''p2'' boardAB1) =
       \<lparr>rows = 1, cols = 2, board = [[faceUp ''A'' ''p1'', faceUp ''B'' ''p2'']]\<rparr>" by code_simp
  have v: "map (map value_c) (board boardAB1) = [[''A'', ''B'']]"
    by (simp add: boardAB1_def faceUp_def faceDown_def)
  have d: "rows boardAB1 = 1" "cols boardAB1 = 2" by (simp_all add: boardAB1_def)
  note t = flip_frame [OF ok, of 1 2 "''p1''"]
  from t ok a b v d show ?thesis by simp
qed

section \<open>The controller invariant\<close>

text \<open>
  \<^bold>\<open>C2.\<close> On every board reached by a construction followed by any sequence of flips,
  every card has a controller exactly when its state is \<open>Revealed\<close>; in particular a
  face-down or matched card has none. (The invariant holds of what the constructor
  builds, and each flip keeps it whichever branch it takes, also from a board that is
  not reachable: this is \<open>controllerInv_flip\<close>.)
\<close>

theorem controller_invariant:
  assumes "reachable b"
  shows "controllerInv b
       \<and> (\<forall>r c crd. cellAt b r c = Some crd \<longrightarrow>
             (controlledBy crd \<noteq> None) = (state crd = Revealed)
             \<and> (state crd = FaceDown \<or> state crd = Matched \<longrightarrow> controlledBy crd = None))"
proof -
  from assms have inv: "controllerInv b"
  proof (induction rule: reachable.induct)
    case (constructed rows' cols' cards b)
    then obtain shuffled where "constructFrom rows' cols' shuffled = Inr b"
      by (auto elim: constructor.cases)
    then show ?case by (rule constructed_controllerInv)
  next
    case (flipped b row col player)
    then show ?case by (intro controllerInv_flip)
  qed
  have "(controlledBy crd \<noteq> None) = (state crd = Revealed)
        \<and> (state crd = FaceDown \<or> state crd = Matched \<longrightarrow> controlledBy crd = None)"
    if "cellAt b r c = Some crd" for r c crd
    using controllerInv_cell [OF inv that] by (auto simp: controllerOk_def)
  with inv show ?thesis by blast
qed

theorem controller_invariant_witness:
  "reachable boardAB1
   \<and> controllerInv boardAB1
   \<and> cellAt boardAB1 0 0 = Some (faceUp ''A'' ''p1'')
   \<and> (controlledBy (faceUp ''A'' ''p1'') \<noteq> None) = (state (faceUp ''A'' ''p1'') = Revealed)"
proof -
  have "constructor 1 2 [''A'', ''B''] (constructFrom 1 2 [''A'', ''B''])"
    by (rule constructor.shuffle) simp
  moreover have "constructFrom 1 2 [''A'', ''B''] = Inr boardAB" by code_simp
  ultimately have "reachable boardAB" by (simp add: reachable.constructed)
  then have "reachable (snd (flip 1 1 ''p1'' boardAB))" by (rule reachable.flipped)
  moreover have "snd (flip 1 1 ''p1'' boardAB) = boardAB1" by code_simp
  ultimately have r: "reachable boardAB1" by simp
  have cell: "cellAt boardAB1 0 0 = Some (faceUp ''A'' ''p1'')" by code_simp
  from controller_invariant [OF r] r cell show ?thesis by blast
qed

section \<open>The views\<close>

lemma viewAt_map:
  "viewAt (map (map f) (board b)) r c = map_option f (cellAt b r c)"
proof (cases "index (board b) r")
  case None
  then show ?thesis by (simp add: viewAt_def cellAt_def index_map)
next
  case (Some rowArr)
  then show ?thesis by (simp add: viewAt_def cellAt_def index_map)
qed

text \<open>
  \<^bold>\<open>C5.\<close> The entry of \<^verbatim>\<open>look(player)\<close> for a cell: a matched card shows its value, state
  \<open>Matched\<close> and no controller; a card revealed by the player shows its value, state
  \<open>Revealed\<close> and the player as controller; any other card (face-down, or revealed but not
  controlled by the player) shows no value and state \<open>FaceDown\<close>. The view has the shape
  of the grid. For two different players, a card revealed by the second is hidden and
  face-down in the first one's view and shown with its value in the second one's.
\<close>

theorem look_cell:
  assumes "cellAt b r c = Some crd"
  shows "(state crd = Matched \<longrightarrow>
            viewAt (fst (look player b)) r c =
              Some \<lparr>value_p = Some (value_c crd), state_p = Matched, controlledBy_p = None\<rparr>)
       \<and> (state crd = Revealed \<and> controlledBy crd = Some player \<longrightarrow>
            viewAt (fst (look player b)) r c =
              Some \<lparr>value_p = Some (value_c crd), state_p = Revealed, controlledBy_p = Some player\<rparr>)
       \<and> (state crd = FaceDown \<or> (state crd = Revealed \<and> controlledBy crd \<noteq> Some player) \<longrightarrow>
            viewAt (fst (look player b)) r c =
              Some \<lparr>value_p = None, state_p = FaceDown, controlledBy_p = None\<rparr>)
       \<and> map length (fst (look player b)) = map length (board b)
       \<and> (\<forall>playerA playerB.
            playerA \<noteq> playerB \<and> state crd = Revealed \<and> controlledBy crd = Some playerB \<longrightarrow>
              viewAt (fst (look playerA b)) r c =
                Some \<lparr>value_p = None, state_p = FaceDown, controlledBy_p = None\<rparr>
              \<and> viewAt (fst (look playerB b)) r c =
                Some \<lparr>value_p = Some (value_c crd), state_p = Revealed, controlledBy_p = Some playerB\<rparr>)"
proof -
  have v: "viewAt (fst (look p b)) r c = Some (lookCard p crd)" for p
    by (simp add: look_def viewAt_map assms)
  have "map length (fst (look player b)) = map length (board b)"
    by (simp add: look_def comp_def)
  then show ?thesis
    unfolding v by (auto simp: lookCard_def)
qed

theorem look_cell_witness:
  "cellAt boardAB1 0 0 = Some (faceUp ''A'' ''p1'')
   \<and> viewAt (fst (look ''p2'' boardAB1)) 0 0 =
       Some \<lparr>value_p = None, state_p = FaceDown, controlledBy_p = None\<rparr>
   \<and> viewAt (fst (look ''p1'' boardAB1)) 0 0 =
       Some \<lparr>value_p = Some ''A'', state_p = Revealed, controlledBy_p = Some ''p1''\<rparr>"
proof -
  have cell: "cellAt boardAB1 0 0 = Some (faceUp ''A'' ''p1'')" by code_simp
  have ne: "''p2'' \<noteq> ''p1''" by simp
  have st: "state (faceUp ''A'' ''p1'') = Revealed" "controlledBy (faceUp ''A'' ''p1'') = Some ''p1''"
    "value_c (faceUp ''A'' ''p1'') = ''A''"
    by (simp_all add: faceUp_def)
  from look_cell [OF cell, of "''p1''"] ne st cell show ?thesis by simp
qed

text \<open>
  \<^bold>\<open>C7.\<close> \<^verbatim>\<open>look\<close> is a pure read: the board after the call is the board before it
  (every cell and both dimensions), and a second call returns the same view.
\<close>

theorem look_pure:
  "snd (look player b) = b
   \<and> fst (look player (snd (look player b))) = fst (look player b)"
  by (simp add: look_def)

text \<open>
  \<^bold>\<open>C8\<close> (as the code has it). The entry of \<^verbatim>\<open>map()\<close> for a cell: a matched or revealed card
  shows its value and its state, a face-down card shows no value and state \<open>FaceDown\<close>;
  no entry has a controller, and the board is not changed. Compared with
  \<^verbatim>\<open>look(player)\<close>, the value or the state of the entry differs exactly on the cards
  that are revealed and not controlled by \<open>player\<close>; the entries as a whole differ
  exactly on the revealed cards, since for the player's own revealed card \<^verbatim>\<open>look\<close>
  reports the controller and \<^verbatim>\<open>map()\<close> does not.
\<close>

theorem map_board_cell:
  assumes "cellAt b r c = Some crd"
  shows "(state crd = Matched \<or> state crd = Revealed \<longrightarrow>
            viewAt (fst (map_board b)) r c =
              Some \<lparr>value_p = Some (value_c crd), state_p = state crd, controlledBy_p = None\<rparr>)
       \<and> (state crd = FaceDown \<longrightarrow>
            viewAt (fst (map_board b)) r c =
              Some \<lparr>value_p = None, state_p = FaceDown, controlledBy_p = None\<rparr>)
       \<and> snd (map_board b) = b
       \<and> ((map_option value_p (viewAt (fst (map_board b)) r c)
              \<noteq> map_option value_p (viewAt (fst (look player b)) r c)
            \<or> map_option state_p (viewAt (fst (map_board b)) r c)
              \<noteq> map_option state_p (viewAt (fst (look player b)) r c))
           = (state crd = Revealed \<and> controlledBy crd \<noteq> Some player))
       \<and> ((viewAt (fst (map_board b)) r c \<noteq> viewAt (fst (look player b)) r c)
           = (state crd = Revealed))"
proof -
  have m: "viewAt (fst (map_board b)) r c = Some (mapCard crd)"
    by (simp add: map_board_def viewAt_map assms)
  have l: "viewAt (fst (look player b)) r c = Some (lookCard player crd)"
    by (simp add: look_def viewAt_map assms)
  have "snd (map_board b) = b" by (simp add: map_board_def)
  then show ?thesis
    unfolding m l by (cases "state crd") (auto simp: mapCard_def lookCard_def)
qed

theorem map_board_cell_witness:
  "cellAt boardAB1 0 0 = Some (faceUp ''A'' ''p1'')
   \<and> viewAt (fst (map_board boardAB1)) 0 0 =
       Some \<lparr>value_p = Some ''A'', state_p = Revealed, controlledBy_p = None\<rparr>
   \<and> map_option value_p (viewAt (fst (map_board boardAB1)) 0 0)
       \<noteq> map_option value_p (viewAt (fst (look ''p2'' boardAB1)) 0 0)"
proof -
  have cell: "cellAt boardAB1 0 0 = Some (faceUp ''A'' ''p1'')" by code_simp
  have st: "state (faceUp ''A'' ''p1'') = Revealed" "controlledBy (faceUp ''A'' ''p1'') = Some ''p1''"
    "value_c (faceUp ''A'' ''p1'') = ''A''"
    by (simp_all add: faceUp_def)
  have l: "viewAt (fst (look ''p2'' boardAB1)) 0 0 =
       Some \<lparr>value_p = None, state_p = FaceDown, controlledBy_p = None\<rparr>" by code_simp
  from map_board_cell [OF cell, of "''p2''"] st cell l show ?thesis by simp
qed

text \<open>
  The claim as written fails on a card the querying player has revealed: it is not a
  card revealed by another player, and the two views differ on it.
\<close>

theorem map_board_counterexample:
  "cellAt boardAB1 0 0 = Some (faceUp ''A'' ''p1'')
   \<and> controlledBy (faceUp ''A'' ''p1'') = Some ''p1''
   \<and> viewAt (fst (map_board boardAB1)) 0 0 =
       Some \<lparr>value_p = Some ''A'', state_p = Revealed, controlledBy_p = None\<rparr>
   \<and> viewAt (fst (look ''p1'' boardAB1)) 0 0 =
       Some \<lparr>value_p = Some ''A'', state_p = Revealed, controlledBy_p = Some ''p1''\<rparr>
   \<and> viewAt (fst (map_board boardAB1)) 0 0 \<noteq> viewAt (fst (look ''p1'' boardAB1)) 0 0"
proof -
  have cell: "cellAt boardAB1 0 0 = Some (faceUp ''A'' ''p1'')" by code_simp
  have c: "controlledBy (faceUp ''A'' ''p1'') = Some ''p1''" by (simp add: faceUp_def)
  have m: "viewAt (fst (map_board boardAB1)) 0 0 =
       Some \<lparr>value_p = Some ''A'', state_p = Revealed, controlledBy_p = None\<rparr>" by code_simp
  have l: "viewAt (fst (look ''p1'' boardAB1)) 0 0 =
       Some \<lparr>value_p = Some ''A'', state_p = Revealed, controlledBy_p = Some ''p1''\<rparr>" by code_simp
  from cell c m l show ?thesis by simp
qed

section \<open>Construction\<close>

lemma constructed_values:
  assumes "0 \<le> rows'" and "0 \<le> cols'"
  shows "concat (map (map value_c) (fillBoard rows' cols' shuffled 0 0 [])) =
           take (nat (rows' * cols')) shuffled
             @ replicate (nat (rows' * cols') - length shuffled) ''''"
proof -
  from assms have "0 \<le> rows' * cols'" by simp
  then have n: "int (nat (rows' * cols')) = rows' * cols'" by simp
  from assms(2) have "max 0 cols' = cols'" by simp
  then have "concat (map (map value_c) (fillBoard rows' cols' shuffled 0 0 [])) =
      map (valueOr shuffled) [0..rows' * cols' - 1]"
    by (simp add: fillBoard_values)
  also have "\<dots> = map (valueOr shuffled) [0..int (nat (rows' * cols')) - 1]"
    by (simp only: n)
  finally show ?thesis by (simp only: valueOr_upto)
qed

text \<open>
  \<^bold>\<open>C9\<close> (as the code has it). For positive \<open>rows\<close> and \<open>cols\<close> and every outcome
  \<open>shuffled\<close> of the shuffle (a rearrangement of the supplied values), the constructor
  returns a board and \<^verbatim>\<open>checkRep\<close> does not throw. The board has the given dimensions,
  exactly \<open>rows\<close> rows of exactly \<open>cols\<close> cards, every card face-down with no controller.
  Read row by row, the values are the first \<open>rows * cols\<close> entries of the shuffled
  sequence, followed by empty strings where it is shorter. Hence, when at most
  \<open>rows * cols\<close> values are supplied, the cells hold all of them and empty strings
  otherwise; when more are supplied, the cells hold \<open>rows * cols\<close> of them (a
  sub-multiset), which ones being decided by the shuffle.
\<close>

theorem constructor_builds:
  assumes "0 < rows'" and "0 < cols'" and "mset shuffled = mset cards"
  shows "constructor rows' cols' cards (constructFrom rows' cols' shuffled)
       \<and> (\<exists>b. constructFrom rows' cols' shuffled = Inr b
            \<and> rows b = rows' \<and> cols b = cols'
            \<and> int (length (board b)) = rows'
            \<and> (\<forall>row\<in>set (board b). int (length row) = cols'
                  \<and> (\<forall>crd\<in>set row. state crd = FaceDown \<and> controlledBy crd = None))
            \<and> concat (map (map value_c) (board b)) =
                 take (nat (rows' * cols')) shuffled
                   @ replicate (nat (rows' * cols') - length shuffled) ''''
            \<and> (length cards \<le> nat (rows' * cols') \<longrightarrow>
                 mset (concat (map (map value_c) (board b))) =
                   mset cards + replicate_mset (nat (rows' * cols') - length cards) '''')
            \<and> (nat (rows' * cols') \<le> length cards \<longrightarrow>
                 size (mset (concat (map (map value_c) (board b)))) = nat (rows' * cols')
                 \<and> mset (concat (map (map value_c) (board b))) \<subseteq># mset cards))"
proof -
  let ?n = "nat (rows' * cols')"
  let ?b = "\<lparr>rows = rows', cols = cols', board = fillBoard rows' cols' shuffled 0 0 []\<rparr>"
  let ?vs = "concat (map (map value_c) (fillBoard rows' cols' shuffled 0 0 []))"
  have rel: "constructor rows' cols' cards (constructFrom rows' cols' shuffled)"
    using assms(3) by (rule constructor.shuffle)
  have ok: "constructFrom rows' cols' shuffled = Inr ?b"
    using assms(1,2) by (intro constructFrom_ok) simp_all
  have len: "int (length (board ?b)) = rows'"
    using assms(1) by (simp add: fillBoard_length)
  have rws: "\<forall>row\<in>set (board ?b). int (length row) = cols'
                  \<and> (\<forall>crd\<in>set row. state crd = FaceDown \<and> controlledBy crd = None)"
    using fillBoard_rows [of _ rows' cols' shuffled 0 0 "[]"] assms(2) by auto
  have vs: "?vs = take ?n shuffled @ replicate (?n - length shuffled) ''''"
    using assms(1,2) by (simp add: constructed_values)
  have same: "length shuffled = length cards"
    using assms(3) by (rule mset_eq_length)
  have few: "mset ?vs = mset cards + replicate_mset (?n - length cards) ''''"
    if "length cards \<le> ?n"
    using that same assms(3) by (simp add: vs)
  have many: "size (mset ?vs) = ?n \<and> mset ?vs \<subseteq># mset cards" if "?n \<le> length cards"
  proof -
    from that same have v: "?vs = take ?n shuffled" by (simp add: vs)
    have "mset (take ?n shuffled) + mset (drop ?n shuffled) = mset shuffled"
      by (simp flip: mset_append)
    then have "mset (take ?n shuffled) \<subseteq># mset cards"
      unfolding assms(3) by (metis mset_subset_eq_add_left)
    moreover have "size (mset (take ?n shuffled)) = ?n" using that same by simp
    ultimately show ?thesis unfolding v by simp
  qed
  from ok len rws vs few many
  have "\<exists>b. constructFrom rows' cols' shuffled = Inr b
            \<and> rows b = rows' \<and> cols b = cols'
            \<and> int (length (board b)) = rows'
            \<and> (\<forall>row\<in>set (board b). int (length row) = cols'
                  \<and> (\<forall>crd\<in>set row. state crd = FaceDown \<and> controlledBy crd = None))
            \<and> concat (map (map value_c) (board b)) =
                 take ?n shuffled @ replicate (?n - length shuffled) ''''
            \<and> (length cards \<le> ?n \<longrightarrow>
                 mset (concat (map (map value_c) (board b))) =
                   mset cards + replicate_mset (?n - length cards) '''')
            \<and> (?n \<le> length cards \<longrightarrow>
                 size (mset (concat (map (map value_c) (board b)))) = ?n
                 \<and> mset (concat (map (map value_c) (board b))) \<subseteq># mset cards)"
    by (intro exI [of _ ?b]) (simp del: mset_concat mset_append mset_map)
  with rel show ?thesis by blast
qed

theorem constructor_builds_witness:
  "mset [''B'', ''A''] = mset [''A'', ''B'']
   \<and> constructor 1 2 [''A'', ''B''] (constructFrom 1 2 [''B'', ''A''])
   \<and> constructFrom 1 2 [''B'', ''A''] =
       Inr \<lparr>rows = 1, cols = 2, board = [[faceDown ''B'', faceDown ''A'']]\<rparr>
   \<and> constructFrom 2 2 [''B'', ''A''] =
       Inr \<lparr>rows = 2, cols = 2,
            board = [[faceDown ''B'', faceDown ''A''], [faceDown '''', faceDown '''']]\<rparr>"
proof -
  have p: "mset [''B'', ''A''] = mset [''A'', ''B'']" by simp
  have a: "constructFrom 1 2 [''B'', ''A''] =
       Inr \<lparr>rows = 1, cols = 2, board = [[faceDown ''B'', faceDown ''A'']]\<rparr>" by code_simp
  have b: "constructFrom 2 2 [''B'', ''A''] =
       Inr \<lparr>rows = 2, cols = 2,
            board = [[faceDown ''B'', faceDown ''A''], [faceDown '''', faceDown '''']]\<rparr>" by code_simp
  have pos: "(0::int) < 1" "(0::int) < 2" by simp_all
  from constructor_builds [OF pos(1) pos(2) p] p a b show ?thesis by blast
qed

text \<open>
  The claim as written fails when more values are supplied than there are cells: the
  shuffle may bring a later value to the front, and the grid then holds a value that is
  not among the first \<open>rows * cols\<close> supplied.
\<close>

theorem constructor_counterexample:
  "constructor 1 1 [''A'', ''B''] (Inr \<lparr>rows = 1, cols = 1, board = [[faceDown ''B'']]\<rparr>)
   \<and> mset (concat (map (map value_c) (board \<lparr>rows = 1, cols = 1, board = [[faceDown ''B'']]\<rparr>)))
       \<noteq> mset (take (nat (1 * 1)) [''A'', ''B''])"
proof -
  have "constructor 1 1 [''A'', ''B''] (constructFrom 1 1 [''B'', ''A''])"
    by (rule constructor.shuffle) simp
  moreover have "constructFrom 1 1 [''B'', ''A''] =
      Inr \<lparr>rows = 1, cols = 1, board = [[faceDown ''B'']]\<rparr>" by code_simp
  ultimately have "constructor 1 1 [''A'', ''B'']
      (Inr \<lparr>rows = 1, cols = 1, board = [[faceDown ''B'']]\<rparr>)" by simp
  then show ?thesis by (simp add: faceDown_def)
qed

end
